theory Spec2Isabelle
  imports Main "HOL-Library.Word"
begin

unbundle bit_operations_syntax

section \<open>Bytes, byte strings and the 4-byte length field\<close>

text \<open>
  Both programs exchange raw bytes. A byte is an 8-bit word, a \<^verbatim>\<open>bytes\<close> or
  \<^verbatim>\<open>bytearray\<close> object is a list of bytes, and Python integers are unbounded.
\<close>

type_synonym byte = "8 word"

datatype exn = OverflowError | SerialException

text \<open>
  \<^verbatim>\<open>n.to_bytes(length, 'little')\<close>: the \<open>length\<close> low-order base-256 digits of
  \<open>n\<close>, least significant first; Python raises \<^verbatim>\<open>OverflowError\<close> when \<open>n\<close> does
  not fit.
\<close>

fun le_digits :: "nat \<Rightarrow> nat \<Rightarrow> byte list" where
  "le_digits 0 n = []"
| "le_digits (Suc k) n = of_nat (n mod 256) # le_digits k (n div 256)"

definition to_bytes :: "nat \<Rightarrow> nat \<Rightarrow> exn + byte list" where
  "to_bytes n len = (if n < 256 ^ len then Inr (le_digits len n) else Inl OverflowError)"

text \<open>\<^verbatim>\<open>int.from_bytes(bs, 'little')\<close>.\<close>

fun from_bytes :: "byte list \<Rightarrow> nat" where
  "from_bytes [] = 0"
| "from_bytes (b # bs) = unat b + 256 * from_bytes bs"

section \<open>The sender: \<^verbatim>\<open>Serial_transmission.py\<close>\<close>

text \<open>
  The camera script runs MicroPython. A \<^verbatim>\<open>str\<close> there is stored as its UTF-8 bytes:
  \<^verbatim>\<open>uart.write(code)\<close> puts exactly these bytes on the wire, and \<^verbatim>\<open>len(code)\<close>
  counts characters, that is the bytes that are not UTF-8 continuation bytes
  (\<open>10xxxxxx\<close>). For an ASCII string the two counts agree.
\<close>

type_synonym mpstr = "byte list"

definition py_len :: "mpstr \<Rightarrow> nat" where
  "py_len code = length (filter (\<lambda>b. b AND 0xC0 \<noteq> 0x80) code)"

text \<open>
  One pass of the \<^verbatim>\<open>while(True)\<close> loop sees one snapshot. What the script uses of
  it: the payloads of the barcodes found in the top strip, in the order
  \<^verbatim>\<open>find_barcodes()\<close> lists them, and the bytes that
  \<^verbatim>\<open>img.scale(roi=(0,y_m,640,200)).compress(quality=35)\<close> yields for this snapshot.
\<close>

record snapshot =
  barcodes :: "mpstr list"
  img_compressed :: "byte list"

text \<open>
  The script's state: the list \<^verbatim>\<open>pre_code\<close>, everything written to the UART so far
  (one entry per \<^verbatim>\<open>uart.write\<close> call, oldest first) and the LED. The two
  \<^verbatim>\<open>print\<close> calls go to the console, not to the UART, and are left out.
\<close>

record sender =
  pre_code :: "mpstr list"
  uart :: "byte list list"
  led :: bool

definition sender_init :: sender where
  "sender_init = \<lparr>pre_code = [], uart = [], led = False\<rparr>"

text \<open>Lines 17 to 34: one pass of the loop body.\<close>

definition sender_step :: "snapshot \<Rightarrow> sender \<Rightarrow> exn + sender" where
  "sender_step snap s0 =
     (let s = s0\<lparr>led := False\<rparr> in
      case barcodes snap of
        [] \<Rightarrow> Inr s
      | code # _ \<Rightarrow>
          if code \<in> set (pre_code s) \<or> py_len code \<noteq> 13 then Inr s
          else
            (case to_bytes (length (img_compressed snap)) 4 of
               Inl e \<Rightarrow> Inl e
             | Inr size_bytes \<Rightarrow>
                 Inr (s\<lparr>pre_code := pre_code s @ [code],
                        uart := uart s @ [size_bytes, img_compressed snap, code],
                        led := True\<rparr>)))"

text \<open>The loop over the snapshots taken so far; an exception ends the script.\<close>

fun sender_loop :: "snapshot list \<Rightarrow> sender \<Rightarrow> exn + sender" where
  "sender_loop [] s = Inr s"
| "sender_loop (snap # snaps) s =
     (case sender_step snap s of
        Inl e \<Rightarrow> Inl e
      | Inr s' \<Rightarrow> sender_loop snaps s')"

text \<open>
  Reading the UART log back: every frame is three writes, and the identifier is the
  third. The candidate identifier of a snapshot is the payload of its first barcode.
\<close>

fun sent_codes :: "byte list list \<Rightarrow> mpstr list" where
  "sent_codes (size_bytes # img # code # ws) = code # sent_codes ws"
| "sent_codes _ = []"

definition candidate :: "snapshot \<Rightarrow> mpstr option" where
  "candidate snap = (case barcodes snap of [] \<Rightarrow> None | code # _ \<Rightarrow> Some code)"

definition candidates :: "snapshot list \<Rightarrow> mpstr list" where
  "candidates snaps = List.map_filter candidate snaps"

section \<open>The receiver: \<^verbatim>\<open>OCRThread.run\<close> in \<^verbatim>\<open>raspi_new.py\<close>\<close>

subsection \<open>What the thread emits\<close>

text \<open>
  The host runs CPython: a \<^verbatim>\<open>str\<close> is a sequence of code points. The placeholder
  waybill of line 69 is the four code points U+8BFB U+53D6 U+5931 U+8D25.
\<close>

type_synonym pystr = "nat list"

definition read_failed :: pystr where
  "read_failed = [35835, 21462, 22833, 36133]"

text \<open>
  The dictionary \<^verbatim>\<open>perform_ocr\<close> returns; its key \<^verbatim>\<open>"text"\<close> is the field
  \<open>ocr_text\<close>.
\<close>

record ocr_result =
  name :: pystr
  phone :: pystr
  ocr_text :: pystr
  waybill :: pystr

text \<open>
  One constructor per message of \<^verbatim>\<open>status_updated.emit\<close>, by source line: 32, 50,
  61, 67, 70, 82, 85, 87, 90 and 93. The numbers and the waybill a message carries are
  kept; the port name and the text of a caught exception are not.
\<close>

datatype status =
    Connected
  | Timeout
  | ImageReceived nat
  | WaybillReceived pystr
  | WaybillError
  | OcrDone
  | ImageError
  | Incomplete nat nat
  | Closed
  | ConnError

datatype event = Status status | NewData ocr_result

subsection \<open>The serial port and the clock\<close>

text \<open>
  The port driver and the clock are outside the repository. They are modelled as a
  script of what the successive calls on the port will find, together with the time in
  milliseconds. \<open>Arrive d c\<close>: the read call that takes this entry blocks for \<open>d\<close>
  milliseconds and is handed the bytes \<open>c\<close>, or the first of them when it asked for
  fewer; the rest stays at the head of the script and is there at once. \<open>Fail\<close>: the
  call raises \<^verbatim>\<open>SerialException\<close>. Once the script is used up nothing arrives any
  more, and a read returns empty after the port's timeout of one second (line 31).
\<close>

datatype poll = Arrive nat "byte list" | Fail

record world =
  feed :: "poll list"
  clock :: nat

text \<open>\<^verbatim>\<open>ser.read(n)\<close>.\<close>

definition ser_read :: "nat \<Rightarrow> world \<Rightarrow> (exn + byte list) \<times> world" where
  "ser_read n w =
     (if n = 0 then (Inr [], w)
      else
        case feed w of
          [] \<Rightarrow> (Inr [], w\<lparr>clock := clock w + 1000\<rparr>)
        | Fail # rest \<Rightarrow> (Inl SerialException, w\<lparr>feed := rest\<rparr>)
        | Arrive d c # rest \<Rightarrow>
            if length c \<le> n then (Inr c, w\<lparr>feed := rest, clock := clock w + d\<rparr>)
            else (Inr (take n c),
                  w\<lparr>feed := Arrive 0 (drop n c) # rest, clock := clock w + d\<rparr>))"

text \<open>
  \<^verbatim>\<open>ser.in_waiting\<close>: the number of bytes at the head of the script. An entry with
  no bytes stands for a stretch of \<open>d\<close> milliseconds in which nothing is waiting.
\<close>

definition in_waiting :: "world \<Rightarrow> (exn + nat) \<times> world" where
  "in_waiting w =
     (case feed w of
        [] \<Rightarrow> (Inr 0, w)
      | Fail # rest \<Rightarrow> (Inl SerialException, w\<lparr>feed := rest\<rparr>)
      | Arrive d c # rest \<Rightarrow>
          if c = [] then (Inr 0, w\<lparr>feed := rest, clock := clock w + d\<rparr>)
          else (Inr (length c), w))"

text \<open>\<^verbatim>\<open>time.sleep(0.01)\<close>.\<close>

definition sleep :: "nat \<Rightarrow> world \<Rightarrow> world" where
  "sleep ms w = w\<lparr>clock := clock w + ms\<rparr>"

text \<open>The bytes still to come, in wire order.\<close>

fun poll_bytes :: "poll \<Rightarrow> byte list" where
  "poll_bytes (Arrive d c) = c"
| "poll_bytes Fail = []"

definition pending :: "world \<Rightarrow> byte list" where
  "pending w = concat (map poll_bytes (feed w))"

subsection \<open>Lines 47 to 58: the payload loop\<close>

text \<open>
  One pass of \<^verbatim>\<open>while len(img_data) < img_size\<close>: the loop is left because the
  buffer is full (\<open>Done\<close>), because of the five second test (\<open>TimedOut\<close>), or by an
  exception of the read (\<open>Raised\<close>); otherwise it goes round again (\<open>Next\<close>). Times
  are in milliseconds, and the subtraction is the one of line 49 (the clock never runs
  backwards).
\<close>

datatype pass = Done | TimedOut | Raised exn world | Next "byte list" world

definition payload_step :: "nat \<Rightarrow> nat \<Rightarrow> byte list \<Rightarrow> world \<Rightarrow> pass" where
  "payload_step img_size start_time img_data w =
     (if \<not> length img_data < img_size then Done
      else if clock w - start_time > 5000 then TimedOut
      else
        (let remaining = img_size - length img_data in
         case ser_read (min 2048 remaining) w of
           (Inl e, w') \<Rightarrow> Raised e w'
         | (Inr chunk, w') \<Rightarrow>
             if chunk = [] then Next img_data (sleep 10 w')
             else Next (img_data @ chunk) w'))"

fun poll_weight :: "poll \<Rightarrow> nat" where
  "poll_weight (Arrive d c) = Suc (length c)"
| "poll_weight Fail = 1"

definition loop_measure :: "nat \<times> nat \<times> byte list \<times> world \<Rightarrow> nat" where
  "loop_measure = (\<lambda>(img_size, start_time, img_data, w).
     sum_list (map poll_weight (feed w)) + (start_time + 5001 - clock w))"

lemma payload_step_decreases:
  assumes "payload_step img_size start_time img_data w = Next img_data' w'"
  shows "loop_measure (img_size, start_time, img_data', w')
       < loop_measure (img_size, start_time, img_data, w)"
proof -
  from assms have open_loop: "length img_data < img_size" "\<not> clock w - start_time > 5000"
    by (auto simp: payload_step_def split: if_splits)
  then have req: "min 2048 (img_size - length img_data) \<noteq> 0" by simp
  show ?thesis
  proof (cases "feed w")
    case Nil
    with assms open_loop req show ?thesis
      by (auto simp: payload_step_def ser_read_def sleep_def loop_measure_def Let_def
          split: if_splits)
  next
    case (Cons p rest)
    show ?thesis
    proof (cases p)
      case Fail
      with Cons assms open_loop req show ?thesis
        by (auto simp: payload_step_def ser_read_def Let_def split: if_splits)
    next
      case (Arrive d c)
      with Cons assms open_loop req show ?thesis
        by (auto simp: payload_step_def ser_read_def sleep_def loop_measure_def Let_def
            split: if_splits)
    qed
  qed
qed

text \<open>
  The loop: the events it emits, the buffer it leaves (or the exception that left it)
  and the world afterwards.
\<close>

function recv_payload ::
  "nat \<Rightarrow> nat \<Rightarrow> byte list \<Rightarrow> world \<Rightarrow> event list \<times> (exn + byte list) \<times> world" where
  "recv_payload img_size start_time img_data w =
     (case payload_step img_size start_time img_data w of
        Done \<Rightarrow> ([], Inr img_data, w)
      | TimedOut \<Rightarrow> ([Status Timeout], Inr img_data, w)
      | Raised e w' \<Rightarrow> ([], Inl e, w')
      | Next img_data' w' \<Rightarrow> recv_payload img_size start_time img_data' w')"
  by pat_completeness auto
termination
  by (relation "measure loop_measure") (auto intro: payload_step_decreases)

subsection \<open>Lines 60 to 87: after the payload loop\<close>

text \<open>\<^verbatim>\<open>bs.decode('ascii')\<close>: \<open>None\<close> stands for \<^verbatim>\<open>UnicodeDecodeError\<close>.\<close>

definition decode_ascii :: "byte list \<Rightarrow> pystr option" where
  "decode_ascii bs = (if list_all (\<lambda>b. b < 128) bs then Some (map unat bs) else None)"

text \<open>
  Lines 64 to 70: the waybill and the status emitted for it, from what the read of
  13 bytes gave. The handler of line 68 catches every exception, that of the read as
  well as that of the decoding.
\<close>

definition decode_waybill :: "exn + byte list \<Rightarrow> pystr \<times> event list" where
  "decode_waybill r =
     (case r of
        Inl e \<Rightarrow> (read_failed, [Status WaybillError])
      | Inr bs \<Rightarrow>
          (case decode_ascii bs of
             None \<Rightarrow> (read_failed, [Status WaybillError])
           | Some s \<Rightarrow> (s, [Status (WaybillReceived s)])))"

definition read_waybill :: "world \<Rightarrow> (pystr \<times> event list) \<times> world" where
  "read_waybill w = (case ser_read 13 w of (r, w') \<Rightarrow> (decode_waybill r, w'))"

text \<open>
  Lines 73 to 85. The image decoding and the recognition (lines 74 to 79) belong to
  libraries outside the repository: \<open>ocr\<close> maps the image bytes to the dictionary
  \<^verbatim>\<open>perform_ocr\<close> returns, or to \<open>None\<close> when one of these lines raises.
\<close>

definition handle_image ::
  "(byte list \<Rightarrow> ocr_result option) \<Rightarrow> byte list \<Rightarrow> pystr \<Rightarrow> event list" where
  "handle_image ocr img_data wb =
     (case ocr img_data of
        None \<Rightarrow> [Status ImageError]
      | Some result \<Rightarrow> [NewData (result\<lparr>waybill := wb\<rparr>), Status OcrDone])"

subsection \<open>Lines 35 to 87: one pass of \<^verbatim>\<open>while self.running\<close>\<close>

text \<open>
  The events of the pass, the exception that left it if there is one, and the world
  afterwards.
\<close>

definition iteration ::
  "(byte list \<Rightarrow> ocr_result option) \<Rightarrow> world \<Rightarrow> event list \<times> exn option \<times> world" where
  "iteration ocr w =
     (case in_waiting w of
        (Inl e, w0) \<Rightarrow> ([], Some e, w0)
      | (Inr n, w0) \<Rightarrow>
          if n = 0 then ([], None, w0)
          else
            (case ser_read 4 w0 of
               (Inl e, w1) \<Rightarrow> ([], Some e, w1)
             | (Inr size_bytes, w1) \<Rightarrow>
                 if length size_bytes < 4 then ([], None, w1)
                 else
                   (let img_size = from_bytes size_bytes;
                        start_time = clock w1
                    in case recv_payload img_size start_time [] w1 of
                      (evs, Inl e, w2) \<Rightarrow> (evs, Some e, w2)
                    | (evs, Inr img_data, w2) \<Rightarrow>
                        if length img_data = img_size then
                          (case read_waybill w2 of
                             ((wb, wevs), w3) \<Rightarrow>
                               (evs @ [Status (ImageReceived img_size)] @ wevs
                                  @ handle_image ocr img_data wb,
                                None, w3))
                        else
                          (evs @ [Status (Incomplete (length img_data) img_size)],
                           None, w2))))"

subsection \<open>Lines 29 to 93: \<^verbatim>\<open>run\<close>\<close>

text \<open>
  \<open>run_loop ocr k\<close>: the flag \<^verbatim>\<open>self.running\<close> is found set \<open>k\<close> times and
  cleared then (\<^verbatim>\<open>stop\<close> is called from the window's thread). An exception leaves
  the loop at once.
\<close>

fun run_loop ::
  "(byte list \<Rightarrow> ocr_result option) \<Rightarrow> nat \<Rightarrow> world \<Rightarrow> event list \<times> exn option \<times> world" where
  "run_loop ocr 0 w = ([], None, w)"
| "run_loop ocr (Suc k) w =
     (case iteration ocr w of
        (evs, Some e, w') \<Rightarrow> (evs, Some e, w')
      | (evs, None, w') \<Rightarrow>
          (case run_loop ocr k w' of
             (evs', r, w'') \<Rightarrow> (evs @ evs', r, w'')))"

text \<open>
  What has become of the port when \<^verbatim>\<open>run\<close> returns: \<^verbatim>\<open>serial.Serial(...)\<close>
  raised (\<open>NotOpened\<close>), \<^verbatim>\<open>ser.close()\<close> of line 89 was called (\<open>PortClosed\<close>), or
  the port was opened and \<^verbatim>\<open>close\<close> was not called (\<open>PortOpen\<close>).
\<close>

datatype port = NotOpened | PortOpen | PortClosed

definition run ::
  "(byte list \<Rightarrow> ocr_result option) \<Rightarrow> bool \<Rightarrow> nat \<Rightarrow> world \<Rightarrow> event list \<times> port \<times> world" where
  "run ocr opens k w =
     (if \<not> opens then ([Status ConnError], NotOpened, w)
      else
        (case run_loop ocr k w of
           (evs, None, w') \<Rightarrow> ([Status Connected] @ evs @ [Status Closed], PortClosed, w')
         | (evs, Some e, w') \<Rightarrow> ([Status Connected] @ evs @ [Status ConnError], PortOpen, w')))"

section \<open>Notions the properties are stated with\<close>

text \<open>
  One pass of the payload loop as a relation between the loop's states (buffer and
  world): its reflexive transitive closure from the state the loop starts in gives
  every state the loop goes through.
\<close>

definition payload_next :: "nat \<Rightarrow> nat \<Rightarrow> byte list \<times> world \<Rightarrow> byte list \<times> world \<Rightarrow> bool" where
  "payload_next img_size start_time s s' =
     (payload_step img_size start_time (fst s) (snd s) = Next (fst s') (snd s'))"

text \<open>
  The passes in which no read falls short and the deadline is kept: bytes are
  waiting, the read of 4 returns 4 bytes, the payload loop fills the buffer and the
  read of 13 returns 13 bytes. \<open>whole_frame\<close> follows \<open>iteration\<close> and gives the
  payload and the identifier bytes read in such a pass, and \<open>None\<close> for any other.
\<close>

definition whole_frame :: "world \<Rightarrow> (byte list \<times> byte list) option" where
  "whole_frame w =
     (case in_waiting w of
        (Inl e, w0) \<Rightarrow> None
      | (Inr n, w0) \<Rightarrow>
          if n = 0 then None
          else
            (case ser_read 4 w0 of
               (Inl e, w1) \<Rightarrow> None
             | (Inr size_bytes, w1) \<Rightarrow>
                 if length size_bytes < 4 then None
                 else
                   (case recv_payload (from_bytes size_bytes) (clock w1) [] w1 of
                      (evs, Inl e, w2) \<Rightarrow> None
                    | (evs, Inr img_data, w2) \<Rightarrow>
                        if length img_data = from_bytes size_bytes then
                          (case ser_read 13 w2 of
                             (Inl e, w3) \<Rightarrow> None
                           | (Inr ident, w3) \<Rightarrow>
                               if length ident = 13 then Some (img_data, ident) else None)
                        else None)))"

text \<open>
  The events of lines 73 to 85, which only the handling of an image emits: a record,
  the end of the recognition, an image error.
\<close>

fun image_event :: "event \<Rightarrow> bool" where
  "image_event (NewData r) = True"
| "image_event (Status s) = (s = OcrDone \<or> s = ImageError)"

section \<open>Example inputs\<close>

text \<open>
  The identifier \<^verbatim>\<open>"1234567890123"\<close>, a snapshot showing it with a three-byte
  payload, and the sender's state after transmitting that snapshot.
\<close>

definition ex_code :: mpstr where
  "ex_code = [0x31, 0x32, 0x33, 0x34, 0x35, 0x36, 0x37, 0x38, 0x39, 0x30, 0x31, 0x32, 0x33]"

definition ex_snap :: snapshot where
  "ex_snap = \<lparr>barcodes = [ex_code], img_compressed = [0xFF, 0xD8, 0xFF]\<rparr>"

definition ex_sent :: sender where
  "ex_sent = \<lparr>pre_code = [ex_code], uart = [[3, 0, 0, 0], [0xFF, 0xD8, 0xFF], ex_code], led = True\<rparr>"

text \<open>
  A frame whose prefix declares 7 bytes, dribbling in one byte a second: the world
  before the pass, at the start of the payload phase, and where the loop stops.
\<close>

definition slow_world :: world where
  "slow_world = \<lparr>feed = [Arrive 0 [7, 0, 0, 0], Arrive 1000 [1], Arrive 1000 [2], Arrive 1000 [3],
      Arrive 1000 [4], Arrive 1000 [5], Arrive 1000 [6], Arrive 1000 [7], Arrive 0 ex_code],
      clock = 0\<rparr>"

definition slow_payload :: world where
  "slow_payload = \<lparr>feed = [Arrive 1000 [1], Arrive 1000 [2], Arrive 1000 [3],
      Arrive 1000 [4], Arrive 1000 [5], Arrive 1000 [6], Arrive 1000 [7], Arrive 0 ex_code],
      clock = 0\<rparr>"

definition slow_stopped :: world where
  "slow_stopped = \<lparr>feed = [Arrive 1000 [7], Arrive 0 ex_code], clock = 6000\<rparr>"

text \<open>
  An image decoder that accepts every image (the waybill of its result is the default
  of \<^verbatim>\<open>perform_ocr\<close>), an identifier of 13 bytes that are not ASCII, and a frame
  carrying it, delivered in one piece.
\<close>

definition ex_ocr :: "byte list \<Rightarrow> ocr_result option" where
  "ex_ocr img = Some \<lparr>name = [], phone = [], ocr_text = [], waybill = [26410, 25552, 20379]\<rparr>"

definition bad_code :: "byte list" where
  "bad_code = [0xFF, 0xFF, 0xFF, 0xFF, 0xFF, 0xFF, 0xFF, 0xFF, 0xFF, 0xFF, 0xFF, 0xFF, 0xFF]"

definition bad_world :: world where
  "bad_world = \<lparr>feed = [Arrive 0 ([3, 0, 0, 0] @ [0xFF, 0xD8, 0xFF] @ bad_code)], clock = 0\<rparr>"

definition bad_payload :: world where
  "bad_payload = \<lparr>feed = [Arrive 0 ([0xFF, 0xD8, 0xFF] @ bad_code)], clock = 0\<rparr>"

definition bad_waybill :: world where
  "bad_waybill = \<lparr>feed = [Arrive 0 bad_code], clock = 0\<rparr>"

text \<open>A payload of three bytes of which one has arrived, the rest coming with the waybill.\<close>

definition two_chunks :: world where
  "two_chunks = \<lparr>feed = [Arrive 0 [0xFF], Arrive 5 ([0xD8, 0xFF] @ ex_code)], clock = 0\<rparr>"

definition two_chunks_next :: world where
  "two_chunks_next = \<lparr>feed = [Arrive 5 ([0xD8, 0xFF] @ ex_code)], clock = 0\<rparr>"

text \<open>
  The waybill the receiver decodes from \<open>ex_code\<close>, the record emitted for it, and a
  frame with \<open>ex_code\<close> and a payload of three bytes, once in one piece and once byte by
  byte.
\<close>

definition ex_waybill :: pystr where
  "ex_waybill = [49, 50, 51, 52, 53, 54, 55, 56, 57, 48, 49, 50, 51]"

definition ex_record :: ocr_result where
  "ex_record = \<lparr>name = [], phone = [], ocr_text = [], waybill = ex_waybill\<rparr>"

definition one_chunk :: world where
  "one_chunk = \<lparr>feed = [Arrive 0 ([3, 0, 0, 0] @ [0xFF, 0xD8, 0xFF] @ ex_code)], clock = 0\<rparr>"

definition byte_chunks :: world where
  "byte_chunks = \<lparr>feed = [Arrive 0 [3, 0, 0, 0], Arrive 1 [0xFF], Arrive 1 [0xD8], Arrive 1 [0xFF],
      Arrive 1 ex_code], clock = 0\<rparr>"

text \<open>
  The frame of \<open>slow_world\<close> in one piece, and the same frame with its last two bytes
  returned by a read that begins at 5000 ms and ends at 6000 ms: the world before the
  pass, at the start of the payload phase, before that read and after it.
\<close>

definition quick_world :: world where
  "quick_world = \<lparr>feed = [Arrive 0 ([7, 0, 0, 0] @ [1, 2, 3, 4, 5, 6, 7] @ ex_code)], clock = 0\<rparr>"

definition late_world :: world where
  "late_world = \<lparr>feed = [Arrive 0 [7, 0, 0, 0], Arrive 1000 [1], Arrive 1000 [2], Arrive 1000 [3],
      Arrive 1000 [4], Arrive 1000 [5], Arrive 1000 [6, 7], Arrive 0 ex_code], clock = 0\<rparr>"

definition late_payload :: world where
  "late_payload = \<lparr>feed = [Arrive 1000 [1], Arrive 1000 [2], Arrive 1000 [3],
      Arrive 1000 [4], Arrive 1000 [5], Arrive 1000 [6, 7], Arrive 0 ex_code], clock = 0\<rparr>"

definition late_last :: world where
  "late_last = \<lparr>feed = [Arrive 1000 [6, 7], Arrive 0 ex_code], clock = 5000\<rparr>"

definition late_done :: world where
  "late_done = \<lparr>feed = [Arrive 0 ex_code], clock = 6000\<rparr>"

text \<open>
  A snapshot showing \<open>bad_code\<close>; the frame of \<open>one_chunk\<close> with its length prefix
  arriving in two pieces, before and after the first pass; and a port whose second read
  raises.
\<close>

definition bad_snap :: snapshot where
  "bad_snap = \<lparr>barcodes = [bad_code], img_compressed = [0xFF, 0xD8, 0xFF]\<rparr>"

definition split_world :: world where
  "split_world = \<lparr>feed = [Arrive 1000 [3, 0], Arrive 0 ([0, 0] @ [0xFF, 0xD8, 0xFF] @ ex_code)],
      clock = 0\<rparr>"

definition split_rest :: world where
  "split_rest = \<lparr>feed = [Arrive 0 ([0, 0] @ [0xFF, 0xD8, 0xFF] @ ex_code)], clock = 1000\<rparr>"

definition failing_world :: world where
  "failing_world = \<lparr>feed = [Arrive 0 [3, 0, 0, 0], Fail], clock = 0\<rparr>"

text \<open>
  The frame of \<open>one_chunk\<close> in a delivery that stalls after the first byte of the
  payload, four reads returning empty after the timeout of one second, and the world in
  which the payload loop gives up.
\<close>

definition stalled_world :: world where
  "stalled_world = \<lparr>feed = [Arrive 0 [3, 0, 0, 0], Arrive 1000 [0xFF], Arrive 1000 [], Arrive 1000 [],
      Arrive 1000 [], Arrive 1000 [], Arrive 1000 [0xD8, 0xFF], Arrive 0 ex_code], clock = 0\<rparr>"

definition stalled_stopped :: world where
  "stalled_stopped = \<lparr>feed = [Arrive 1000 [0xD8, 0xFF], Arrive 0 ex_code], clock = 5040\<rparr>"

section \<open>The sender's properties\<close>

lemma length_le_digits: "length (le_digits k n) = k"
  by (induction k arbitrary: n) auto

lemma from_bytes_le_digits: "n < 256 ^ k \<Longrightarrow> from_bytes (le_digits k n) = n"
proof (induction k arbitrary: n)
  case 0
  then show ?case by simp
next
  case (Suc k)
  have "n div 256 < 256 ^ k" using Suc.prems by (simp add: less_mult_imp_div_less mult.commute)
  then have "from_bytes (le_digits k (n div 256)) = n div 256" by (rule Suc.IH)
  moreover have "unat (of_nat (n mod 256) :: byte) = n mod 256"
    by (simp add: unat_of_nat)
  ultimately show ?case by simp
qed

lemma sent_codes_snoc:
  "length ws mod 3 = 0 \<Longrightarrow> sent_codes (ws @ [a, b, c]) = sent_codes ws @ [c]"
  by (induction ws rule: sent_codes.induct) simp_all

lemma sender_step_cases:
  assumes "sender_step snap s = Inr s'"
  shows "(pre_code s' = pre_code s \<and> uart s' = uart s \<and>
            (case candidate snap of None \<Rightarrow> True
             | Some code \<Rightarrow> code \<in> set (pre_code s) \<or> py_len code \<noteq> 13))
       \<or> (\<exists>code sz. candidate snap = Some code \<and> code \<notin> set (pre_code s) \<and> py_len code = 13 \<and>
            pre_code s' = pre_code s @ [code] \<and>
            uart s' = uart s @ [sz, img_compressed snap, code])"
  using assms
  by (auto simp: sender_step_def candidate_def Let_def split: list.splits if_splits sum.splits)

definition sender_inv :: "sender \<Rightarrow> bool" where
  "sender_inv s = (length (uart s) mod 3 = 0 \<and> sent_codes (uart s) = pre_code s
     \<and> distinct (pre_code s) \<and> list_all (\<lambda>c. py_len c = 13) (pre_code s))"

lemma sender_inv_init: "sender_inv sender_init"
  by (simp add: sender_inv_def sender_init_def)

lemma sender_step_inv:
  assumes "sender_step snap s = Inr s'" "sender_inv s"
  shows "sender_inv s'"
  using sender_step_cases[OF assms(1)] assms(2)
  by (auto simp: sender_inv_def sent_codes_snoc mod_Suc)

lemma sender_loop_inv:
  "sender_loop snaps s = Inr s' \<Longrightarrow> sender_inv s \<Longrightarrow> sender_inv s'"
  by (induction snaps arbitrary: s) (auto split: sum.splits dest: sender_step_inv)

lemma sender_loop_codes:
  "sender_loop snaps s = Inr s' \<Longrightarrow>
     set (pre_code s') = set (pre_code s) \<union> {c \<in> set (candidates snaps). py_len c = 13}"
proof (induction snaps arbitrary: s)
  case Nil
  then show ?case by (simp add: candidates_def)
next
  case (Cons snap snaps)
  from Cons.prems obtain s1 where st: "sender_step snap s = Inr s1" and lp: "sender_loop snaps s1 = Inr s'"
    by (auto split: sum.splits)
  have "set (pre_code s1) = set (pre_code s) \<union> {c. candidate snap = Some c \<and> py_len c = 13}"
    using sender_step_cases[OF st] by (auto split: option.splits)
  with Cons.IH[OF lp] show ?case
    by (auto simp: candidates_def split: option.splits)
qed

lemma sender_loop_append:
  "sender_loop snaps s = Inr s1 \<Longrightarrow> sender_loop (snaps @ tl_snaps) s = sender_loop tl_snaps s1"
  by (induction snaps arbitrary: s) (auto split: sum.splits)

text \<open>
  Claim C4. Take any run of the loop from the initial state and one more pass after
  it. With no barcode in the snapshot nothing is written. With a candidate identifier,
  a frame ending in that identifier is written if and only if the identifier has
  length 13 and was not written to the UART before in this run; otherwise nothing is
  written. So the identifiers on the wire are pairwise different, and they are exactly
  the candidates of length 13 presented so far: a qualifying identifier presented
  twice is sent once, and one whose length is not 13 is never sent.
\<close>

theorem sender_transmits_iff:
  assumes "sender_loop snaps sender_init = Inr s" and "sender_step snap s = Inr s'"
  shows "(case candidate snap of
            None \<Rightarrow> uart s' = uart s
          | Some code \<Rightarrow>
              if py_len code = 13 \<and> code \<notin> set (sent_codes (uart s))
              then \<exists>size_bytes. uart s' = uart s @ [size_bytes, img_compressed snap, code]
              else uart s' = uart s)
       \<and> distinct (sent_codes (uart s'))
       \<and> set (sent_codes (uart s')) = {c \<in> set (candidates (snaps @ [snap])). py_len c = 13}"
proof -
  have inv: "sender_inv s" using assms(1) sender_inv_init by (rule sender_loop_inv)
  then have inv': "sender_inv s'" using assms(2) by (simp add: sender_step_inv)
  have run': "sender_loop (snaps @ [snap]) sender_init = Inr s'"
    using sender_loop_append[OF assms(1), of "[snap]"] assms(2) by simp
  have "set (pre_code s') = {c \<in> set (candidates (snaps @ [snap])). py_len c = 13}"
    using sender_loop_codes[OF run'] by (simp add: sender_init_def)
  moreover have "case candidate snap of
            None \<Rightarrow> uart s' = uart s
          | Some code \<Rightarrow>
              if py_len code = 13 \<and> code \<notin> set (sent_codes (uart s))
              then \<exists>size_bytes. uart s' = uart s @ [size_bytes, img_compressed snap, code]
              else uart s' = uart s"
    using sender_step_cases[OF assms(2)] inv
    by (auto simp: sender_inv_def split: option.splits)
  ultimately show ?thesis using inv' by (simp add: sender_inv_def)
qed

text \<open>
  Claim C5. On an accepted trigger (a first barcode of length 13 that is not in
  \<^verbatim>\<open>pre_code\<close>, with a payload shorter than \<open>2 ^ 32\<close> bytes, the most a 4-byte
  length can state) the pass appends the identifier to \<^verbatim>\<open>pre_code\<close> and appends
  exactly three writes to the UART log, in this order: the length field, the whole
  payload, the identifier's bytes. The length field has 4 bytes and read back
  little-endian it is the exact byte count of the payload.
\<close>

theorem sender_step_frame:
  assumes "barcodes snap = code # others" and "code \<notin> set (pre_code s)"
    and "py_len code = 13" and "length (img_compressed snap) < 2 ^ 32"
  shows "sender_step snap s =
           Inr (s\<lparr>pre_code := pre_code s @ [code],
                  uart := uart s @ [le_digits 4 (length (img_compressed snap)),
                                    img_compressed snap, code],
                  led := True\<rparr>)
       \<and> length (le_digits 4 (length (img_compressed snap))) = 4
       \<and> from_bytes (le_digits 4 (length (img_compressed snap))) = length (img_compressed snap)"
proof -
  have "to_bytes (length (img_compressed snap)) 4 = Inr (le_digits 4 (length (img_compressed snap)))"
    using assms(4) by (simp add: to_bytes_def)
  then have "sender_step snap s =
           Inr (s\<lparr>pre_code := pre_code s @ [code],
                  uart := uart s @ [le_digits 4 (length (img_compressed snap)),
                                    img_compressed snap, code],
                  led := True\<rparr>)"
    using assms(1-3) by (simp add: sender_step_def)
  moreover have "from_bytes (le_digits 4 (length (img_compressed snap))) = length (img_compressed snap)"
    using assms(4) by (intro from_bytes_le_digits) simp
  ultimately show ?thesis by (simp only: length_le_digits simp_thms)
qed

lemma le_digits_4:
  "le_digits 4 n = [of_nat (n mod 256), of_nat (n div 256 mod 256),
     of_nat (n div 256 div 256 mod 256), of_nat (n div 256 div 256 div 256 mod 256)]"
proof -
  have "(4::nat) = Suc (Suc (Suc (Suc 0)))" by simp
  then show ?thesis by (simp only: le_digits.simps)
qed

lemma ex1: "py_len ex_code = 13" by (simp add: py_len_def ex_code_def)
lemma ex2: "sender_loop [ex_snap] sender_init = Inr ex_sent"
  by (simp add: sender_step_def sender_init_def ex_snap_def ex_sent_def ex1 to_bytes_def le_digits_4)
lemma ex3: "sender_step ex_snap ex_sent = Inr (ex_sent\<lparr>led := False\<rparr>)"
  by (simp add: sender_step_def ex_snap_def ex_sent_def)

theorem sender_transmits_iff_witness:
  "sender_loop [ex_snap] sender_init = Inr ex_sent
   \<and> sender_step ex_snap ex_sent = Inr (ex_sent\<lparr>led := False\<rparr>)
   \<and> candidate ex_snap = Some ex_code
   \<and> py_len ex_code = 13
   \<and> ex_code \<in> set (sent_codes (uart ex_sent))
   \<and> uart (ex_sent\<lparr>led := False\<rparr>) = uart ex_sent
   \<and> distinct (sent_codes (uart (ex_sent\<lparr>led := False\<rparr>)))"
proof -
  have c: "candidate ex_snap = Some ex_code" by (simp add: candidate_def ex_snap_def)
  have u: "uart (ex_sent\<lparr>led := False\<rparr>) = uart ex_sent" by simp
  have m: "ex_code \<in> set (sent_codes (uart ex_sent))" by (simp add: ex_sent_def)
  have d: "distinct (sent_codes (uart (ex_sent\<lparr>led := False\<rparr>)))"
    using sender_transmits_iff[OF ex2 ex3] by (rule conjunct2[THEN conjunct1])
  show ?thesis using ex1 ex2 ex3 c u m d by (intro conjI)
qed

theorem sender_step_frame_witness:
  "sender_step ex_snap sender_init = Inr ex_sent
   \<and> from_bytes (le_digits 4 (length (img_compressed ex_snap))) = 3"
proof -
  have b: "barcodes ex_snap = ex_code # []" by (simp add: ex_snap_def)
  have n: "ex_code \<notin> set (pre_code sender_init)" by (simp add: sender_init_def)
  have l: "length (img_compressed ex_snap) < 2 ^ 32" by (simp add: ex_snap_def)
  have len: "length (img_compressed ex_snap) = 3" by (simp add: ex_snap_def)
  from sender_step_frame[OF b n ex1 l] len
  have "from_bytes (le_digits 4 (length (img_compressed ex_snap))) = 3" by simp
  then show ?thesis using ex2 by (simp split: sum.splits)
qed

section \<open>The receiver's properties\<close>

lemma ser_read_length: "ser_read n w = (Inr bs, w') \<Longrightarrow> length bs \<le> n"
  by (auto simp: ser_read_def split: if_splits list.splits poll.splits)

lemma ser_read_pending: "ser_read n w = (Inr bs, w') \<Longrightarrow> pending w = bs @ pending w'"
  by (auto simp: ser_read_def pending_def split: if_splits list.splits poll.splits)

lemma ser_read_clock: "ser_read n w = (r, w') \<Longrightarrow> clock w \<le> clock w'"
  by (auto simp: ser_read_def split: if_splits list.splits poll.splits)

lemma pending_sleep: "pending (sleep ms w) = pending w"
  by (simp add: pending_def sleep_def)

lemma payload_step_Next_length:
  assumes "payload_step n st buf w = Next buf' w'" "length buf \<le> n"
  shows "length buf' \<le> n"
proof -
  from assms(1) have lt: "length buf < n"
    by (auto simp: payload_step_def split: if_splits)
  from assms(1) lt consider (empty) "buf' = buf"
    | (chunk) chunk w1 where "ser_read (min 2048 (n - length buf)) w = (Inr chunk, w1)" "buf' = buf @ chunk"
    by (auto simp: payload_step_def Let_def split: if_splits prod.splits sum.splits)
  then show ?thesis
  proof cases
    case empty
    then show ?thesis using assms(2) by simp
  next
    case chunk
    from ser_read_length[OF chunk(1)] have "length chunk \<le> n - length buf" by simp
    then show ?thesis using chunk(2) lt by simp
  qed
qed

lemma payload_step_Next_pending:
  assumes "payload_step n st buf w = Next buf' w'"
  shows "buf @ pending w = buf' @ pending w'"
  using assms
  by (auto simp: payload_step_def Let_def pending_sleep split: if_splits prod.splits sum.splits
      dest: ser_read_pending)

lemma recv_payload_Next:
  "payload_step n st buf w = Next buf' w' \<Longrightarrow> recv_payload n st buf w = recv_payload n st buf' w'"
  by (subst recv_payload.simps) simp

lemma recv_payload_Done:
  "payload_step n st buf w = Done \<Longrightarrow> recv_payload n st buf w = ([], Inr buf, w)"
  by (subst recv_payload.simps) simp

lemma recv_payload_TimedOut:
  "payload_step n st buf w = TimedOut \<Longrightarrow> recv_payload n st buf w = ([Status Timeout], Inr buf, w)"
  by (subst recv_payload.simps) simp

lemma recv_payload_Raised:
  "payload_step n st buf w = Raised e w' \<Longrightarrow> recv_payload n st buf w = ([], Inl e, w')"
  by (subst recv_payload.simps) simp

lemma payload_step_Done_iff: "payload_step n st buf w = Done \<longleftrightarrow> \<not> length buf < n"
  by (auto simp: payload_step_def Let_def split: if_splits prod.splits sum.splits)

lemma payload_step_TimedOut_iff:
  "payload_step n st buf w = TimedOut \<longleftrightarrow> length buf < n \<and> clock w - st > 5000"
  by (auto simp: payload_step_def Let_def split: if_splits prod.splits sum.splits)

text \<open>What the payload loop returns, in full.\<close>

lemma recv_payload_result:
  assumes "recv_payload n st buf w = (evs, Inr img, w')" "length buf \<le> n"
  shows "length img \<le> n \<and> buf @ pending w = img @ pending w'
       \<and> (if length img = n then evs = [] else evs = [Status Timeout] \<and> clock w' - st > 5000)"
  using assms
proof (induction n st buf w rule: recv_payload.induct)
  case (1 n st buf w)
  show ?case
  proof (cases "payload_step n st buf w")
    case Done
    with "1.prems" show ?thesis
      by (auto simp: recv_payload_Done payload_step_Done_iff)
  next
    case TimedOut
    with "1.prems" show ?thesis
      by (auto simp: recv_payload_TimedOut payload_step_TimedOut_iff)
  next
    case (Raised e w1)
    with "1.prems" show ?thesis by (simp add: recv_payload_Raised)
  next
    case (Next buf1 w1)
    have r: "recv_payload n st buf1 w1 = (evs, Inr img, w')"
      using "1.prems"(1) Next by (simp add: recv_payload_Next)
    have l: "length buf1 \<le> n" using Next "1.prems"(2) by (rule payload_step_Next_length)
    from "1.IH"[OF Next r l] payload_step_Next_pending[OF Next] show ?thesis by simp
  qed
qed

lemma in_waiting_nonzero:
  "in_waiting w = (Inr m, w0) \<Longrightarrow> m \<noteq> 0 \<Longrightarrow> w0 = w"
  by (auto simp: in_waiting_def split: list.splits poll.splits if_splits)

lemma iteration_after_header:
  assumes "in_waiting w = (Inr m, w0)" "m \<noteq> 0" "ser_read 4 w0 = (Inr h, w1)" "length h = 4"
    and "recv_payload (from_bytes h) (clock w1) [] w1 = (pevs, Inr img, w2)"
  shows "iteration ocr w =
     (if length img = from_bytes h then
        (pevs @ [Status (ImageReceived (from_bytes h))] @ snd (fst (read_waybill w2))
           @ handle_image ocr img (fst (fst (read_waybill w2))),
         None, snd (read_waybill w2))
      else (pevs @ [Status (Incomplete (length img) (from_bytes h))], None, w2))"
  using assms by (simp add: iteration_def Let_def split: prod.splits)

lemma payload_reach_recv:
  assumes "(payload_next n st)\<^sup>*\<^sup>* s s'"
  shows "recv_payload n st (fst s) (snd s) = recv_payload n st (fst s') (snd s')"
  using assms
  by (induction rule: rtranclp_induct) (auto simp: payload_next_def recv_payload_Next)

lemma payload_reach_length:
  assumes "(payload_next n st)\<^sup>*\<^sup>* s s'" "length (fst s) \<le> n"
  shows "length (fst s') \<le> n"
  using assms
  by (induction rule: rtranclp_induct) (auto simp: payload_next_def dest: payload_step_Next_length)

text \<open>
  Claim C3, as amended. The deadline of a frame is counted from the clock value taken
  when its payload phase starts (right after the length prefix was read) and is never
  moved. The loop tests it at the top of each pass, before the read: whatever the loop
  has received so far, if at such a test the buffer is still short and more than
  5000 ms have gone by since that start, the loop stops there. The pass then emits the
  timeout status and the report of the incomplete image and nothing else, hands the
  partial buffer to nobody, raises nothing, and leaves the world as the loop left it,
  so the next pass starts with a new length prefix.
\<close>

theorem payload_deadline:
  assumes "in_waiting w = (Inr m, w0)" and "m \<noteq> 0"
    and "ser_read 4 w0 = (Inr h, w1)" and "length h = 4"
    and "(payload_next (from_bytes h) (clock w1))\<^sup>*\<^sup>* ([], w1) (buf, w2)"
    and "length buf < from_bytes h" and "clock w2 - clock w1 > 5000"
  shows "recv_payload (from_bytes h) (clock w1) [] w1 = ([Status Timeout], Inr buf, w2)
       \<and> iteration ocr w =
           ([Status Timeout, Status (Incomplete (length buf) (from_bytes h))], None, w2)"
proof -
  have "payload_step (from_bytes h) (clock w1) buf w2 = TimedOut"
    using assms(6,7) by (simp add: payload_step_TimedOut_iff)
  then have "recv_payload (from_bytes h) (clock w1) buf w2 = ([Status Timeout], Inr buf, w2)"
    by (rule recv_payload_TimedOut)
  with payload_reach_recv[OF assms(5)]
  have r: "recv_payload (from_bytes h) (clock w1) [] w1 = ([Status Timeout], Inr buf, w2)" by simp
  from iteration_after_header[OF assms(1-4) r] assms(6) show ?thesis using r by simp
qed

text \<open>
  Claim C10. When the payload loop ends with fewer bytes than declared, the pass
  emits the timeout status and the report of the incomplete image only: no waybill is
  read and no record is emitted. The world after the pass is the world in which the
  loop stopped, so the bytes that were pending when the payload phase began are the
  buffer followed by what is still pending: the rest of the payload and the
  identifier stay unread. The next pass of \<^verbatim>\<open>while self.running\<close> starts from that
  world, with the availability test and the read of a length prefix.
\<close>

theorem incomplete_frame_left_unread:
  assumes "in_waiting w = (Inr m, w0)" and "m \<noteq> 0"
    and "ser_read 4 w0 = (Inr h, w1)" and "length h = 4"
    and "recv_payload (from_bytes h) (clock w1) [] w1 = (pevs, Inr img, w2)"
    and "length img < from_bytes h"
  shows "iteration ocr w =
           ([Status Timeout, Status (Incomplete (length img) (from_bytes h))], None, w2)
       \<and> pending w1 = img @ pending w2
       \<and> run_loop ocr (Suc k) w =
           (case run_loop ocr k w2 of
              (evs', r, w'') \<Rightarrow>
                ([Status Timeout, Status (Incomplete (length img) (from_bytes h))] @ evs', r, w''))"
proof -
  from recv_payload_result[OF assms(5)] assms(6)
  have p: "pending w1 = img @ pending w2" and e: "pevs = [Status Timeout]" by auto
  have i: "iteration ocr w =
           ([Status Timeout, Status (Incomplete (length img) (from_bytes h))], None, w2)"
    using iteration_after_header[OF assms(1-5)] assms(6) e by simp
  show ?thesis using p i by simp
qed

text \<open>
  Claim C6. When the payload is complete and the bytes read for the waybill do not
  decode as ASCII, the pass keeps the payload: it emits the size status, then the
  waybill error status, and then handles the image with the placeholder as waybill,
  exactly as it handles an image with a decoded waybill. A record, when the image
  decodes, carries the placeholder.
\<close>

theorem undecodable_waybill_dispatched:
  assumes "in_waiting w = (Inr m, w0)" and "m \<noteq> 0"
    and "ser_read 4 w0 = (Inr h, w1)" and "length h = 4"
    and "recv_payload (from_bytes h) (clock w1) [] w1 = (pevs, Inr img, w2)"
    and "length img = from_bytes h"
    and "ser_read 13 w2 = (Inr ident, w3)" and "decode_ascii ident = None"
  shows "iteration ocr w =
           ([Status (ImageReceived (length img)), Status WaybillError]
              @ handle_image ocr img read_failed, None, w3)
       \<and> (case ocr img of
            None \<Rightarrow> handle_image ocr img read_failed = [Status ImageError]
          | Some result \<Rightarrow>
              handle_image ocr img read_failed
                = [NewData (result\<lparr>waybill := read_failed\<rparr>), Status OcrDone])"
proof -
  from recv_payload_result[OF assms(5)] assms(6) have e: "pevs = []" by auto
  have "read_waybill w2 = ((read_failed, [Status WaybillError]), w3)"
    using assms(7,8) by (simp add: read_waybill_def decode_waybill_def)
  then have "iteration ocr w =
           ([Status (ImageReceived (length img)), Status WaybillError]
              @ handle_image ocr img read_failed, None, w3)"
    using iteration_after_header[OF assms(1-5)] assms(6) e by simp
  then show ?thesis by (simp add: handle_image_def split: option.splits)
qed

lemma slow_header: "in_waiting slow_world = (Inr 4, slow_world)"
  "ser_read 4 slow_world = (Inr [7, 0, 0, 0], slow_payload)"
  "from_bytes [7, 0, 0, 0] = 7" "clock slow_payload = 0"
  by (simp_all add: in_waiting_def ser_read_def slow_world_def slow_payload_def)

lemma slow_recv:
  "recv_payload 7 0 [] slow_payload = ([Status Timeout], Inr [1, 2, 3, 4, 5, 6], slow_stopped)"
  by (simp add: recv_payload.simps payload_step_def ser_read_def sleep_def slow_payload_def
      slow_stopped_def)

lemma recv_payload_reach:
  assumes "recv_payload n st buf w = (evs, Inr img, w')"
  shows "(payload_next n st)\<^sup>*\<^sup>* (buf, w) (img, w')"
  using assms
proof (induction n st buf w rule: recv_payload.induct)
  case (1 n st buf w)
  show ?case
  proof (cases "payload_step n st buf w")
    case Done
    with "1.prems" show ?thesis by (simp add: recv_payload_Done)
  next
    case TimedOut
    with "1.prems" show ?thesis by (simp add: recv_payload_TimedOut)
  next
    case (Raised e w1)
    with "1.prems" show ?thesis by (simp add: recv_payload_Raised)
  next
    case (Next buf1 w1)
    have "recv_payload n st buf1 w1 = (evs, Inr img, w')"
      using "1.prems" Next by (simp add: recv_payload_Next)
    then have "(payload_next n st)\<^sup>*\<^sup>* (buf1, w1) (img, w')" by (rule "1.IH"[OF Next])
    moreover have "payload_next n st (buf, w) (buf1, w1)" using Next by (simp add: payload_next_def)
    ultimately show ?thesis by (rule converse_rtranclp_into_rtranclp[rotated])
  qed
qed

lemma recv_payload_events:
  assumes "recv_payload n st buf w = (evs, r, w')"
  shows "evs = [] \<or> evs = [Status Timeout]"
  using assms
proof (induction n st buf w rule: recv_payload.induct)
  case (1 n st buf w)
  show ?case
  proof (cases "payload_step n st buf w")
    case Done
    with "1.prems" show ?thesis by (simp add: recv_payload_Done)
  next
    case TimedOut
    with "1.prems" show ?thesis by (simp add: recv_payload_TimedOut)
  next
    case (Raised e w1)
    with "1.prems" show ?thesis by (simp add: recv_payload_Raised)
  next
    case (Next buf1 w1)
    have "recv_payload n st buf1 w1 = (evs, r, w')"
      using "1.prems" Next by (simp add: recv_payload_Next)
    then show ?thesis by (rule "1.IH"[OF Next])
  qed
qed

lemma payload_step_Next_read:
  assumes "payload_step n st buf w = Next buf' w'"
  shows "\<exists>chunk w1. ser_read (min 2048 (n - length buf)) w = (Inr chunk, w1)
           \<and> length chunk \<le> min 2048 (n - length buf) \<and> buf' = buf @ chunk
           \<and> w' = (if chunk = [] then sleep 10 w1 else w1)"
proof -
  from assms obtain chunk w1 where
    r: "ser_read (min 2048 (n - length buf)) w = (Inr chunk, w1)"
    and b: "buf' = buf @ chunk" "w' = (if chunk = [] then sleep 10 w1 else w1)"
    by (auto simp: payload_step_def Let_def split: if_splits prod.splits sum.splits)
  from ser_read_length[OF r] have "length chunk \<le> min 2048 (n - length buf)" .
  with r b show ?thesis by blast
qed

lemma handle_image_event: "\<exists>ev\<in>set (handle_image ocr img wb). image_event ev"
  by (simp add: handle_image_def split: option.splits)

lemma image_event_pass:
  assumes "\<exists>ev\<in>set (fst (iteration ocr w)). image_event ev"
  shows "\<exists>m h w1 img w2. in_waiting w = (Inr m, w) \<and> m \<noteq> 0
           \<and> ser_read 4 w = (Inr h, w1) \<and> length h = 4
           \<and> recv_payload (from_bytes h) (clock w1) [] w1 = ([], Inr img, w2)
           \<and> length img = from_bytes h"
proof -
  obtain r0 w0 where iw: "in_waiting w = (r0, w0)" by fastforce
  show ?thesis
  proof (cases r0)
    case (Inl e)
    with iw assms show ?thesis by (simp add: iteration_def)
  next
    case (Inr m)
    show ?thesis
    proof (cases "m = 0")
      case True
      with iw Inr assms show ?thesis by (simp add: iteration_def)
    next
      case False
      have w0: "w0 = w" using iw Inr False by (auto dest: in_waiting_nonzero)
      obtain r1 w1 where rd: "ser_read 4 w = (r1, w1)" by fastforce
      show ?thesis
      proof (cases r1)
        case (Inl e)
        with iw Inr False w0 rd assms show ?thesis by (simp add: iteration_def)
      next
        case h: (Inr h)
        have le: "length h \<le> 4" using rd h by (auto dest: ser_read_length)
        show ?thesis
        proof (cases "length h < 4")
          case True
          with iw Inr False w0 rd h assms show ?thesis by (simp add: iteration_def)
        next
          case lh: False
          with le have l4: "length h = 4" by simp
          obtain evs r2 w2 where rp: "recv_payload (from_bytes h) (clock w1) [] w1 = (evs, r2, w2)"
            by (metis prod_cases3)
          have ev: "evs = [] \<or> evs = [Status Timeout]" using rp by (rule recv_payload_events)
          show ?thesis
          proof (cases r2)
            case (Inl e)
            with iw Inr False w0 rd h lh rp ev assms show ?thesis
              by (auto simp: iteration_def Let_def)
          next
            case img: (Inr img)
            have a: "in_waiting w = (Inr m, w)" using iw Inr w0 by simp
            have b: "ser_read 4 w = (Inr h, w1)" using rd h by simp
            have c: "recv_payload (from_bytes h) (clock w1) [] w1 = (evs, Inr img, w2)"
              using rp img by simp
            show ?thesis
            proof (cases "length img = from_bytes h")
              case True
              with recv_payload_result[OF c] have "evs = []" by simp
              with a False b l4 c True show ?thesis by blast
            next
              case ne: False
              from iteration_after_header[OF a False b l4 c, of ocr] ne
              have "fst (iteration ocr w) = evs @ [Status (Incomplete (length img) (from_bytes h))]"
                by simp
              with ev assms show ?thesis by auto
            qed
          qed
        qed
      qed
    qed
  qed
qed

text \<open>
  Claim C9. In every state the payload loop goes through, the buffer is no longer
  than the declared length, and a further pass of the loop is a read of
  \<open>min 2048 remaining\<close> bytes: the buffer grows by what that read returns, which is
  no more than was asked, and stays within the declared length. A pass of
  \<^verbatim>\<open>while self.running\<close> hands an image to lines 73 to 85 (it emits a record, the
  end of the recognition or an image error) only when the payload loop has ended with a
  buffer of exactly the declared length, and then it hands over that buffer.
\<close>

theorem payload_buffer_bounded:
  "((payload_next n st)\<^sup>*\<^sup>* ([], w0) (buf, w) \<longrightarrow>
       length buf \<le> n
     \<and> (\<forall>buf' w'. payload_step n st buf w = Next buf' w' \<longrightarrow>
          (\<exists>chunk w1. ser_read (min 2048 (n - length buf)) w = (Inr chunk, w1)
             \<and> length chunk \<le> min 2048 (n - length buf)
             \<and> buf' = buf @ chunk \<and> w' = (if chunk = [] then sleep 10 w1 else w1)
             \<and> length buf' \<le> n)))
   \<and> ((\<exists>ev\<in>set (fst (iteration ocr v)). image_event ev) \<longleftrightarrow>
        (\<exists>m h v1 img v2. in_waiting v = (Inr m, v) \<and> m \<noteq> 0
           \<and> ser_read 4 v = (Inr h, v1) \<and> length h = 4
           \<and> (payload_next (from_bytes h) (clock v1))\<^sup>*\<^sup>* ([], v1) (img, v2)
           \<and> recv_payload (from_bytes h) (clock v1) [] v1 = ([], Inr img, v2)
           \<and> length img = from_bytes h
           \<and> fst (iteration ocr v) =
               [Status (ImageReceived (from_bytes h))] @ snd (fst (read_waybill v2))
                 @ handle_image ocr img (fst (fst (read_waybill v2)))))"
proof (intro conjI impI allI)
  assume reach: "(payload_next n st)\<^sup>*\<^sup>* ([], w0) (buf, w)"
  show b: "length buf \<le> n" using payload_reach_length[OF reach] by simp
  fix buf' w'
  assume step: "payload_step n st buf w = Next buf' w'"
  from payload_step_Next_read[OF step] obtain chunk w1 where
    c: "ser_read (min 2048 (n - length buf)) w = (Inr chunk, w1)"
      "length chunk \<le> min 2048 (n - length buf)" "buf' = buf @ chunk"
      "w' = (if chunk = [] then sleep 10 w1 else w1)" by blast
  have "length buf' \<le> n" using step b by (rule payload_step_Next_length)
  with c show "\<exists>chunk w1. ser_read (min 2048 (n - length buf)) w = (Inr chunk, w1)
             \<and> length chunk \<le> min 2048 (n - length buf)
             \<and> buf' = buf @ chunk \<and> w' = (if chunk = [] then sleep 10 w1 else w1)
             \<and> length buf' \<le> n" by blast
next
  show "(\<exists>ev\<in>set (fst (iteration ocr v)). image_event ev) \<longleftrightarrow>
        (\<exists>m h v1 img v2. in_waiting v = (Inr m, v) \<and> m \<noteq> 0
           \<and> ser_read 4 v = (Inr h, v1) \<and> length h = 4
           \<and> (payload_next (from_bytes h) (clock v1))\<^sup>*\<^sup>* ([], v1) (img, v2)
           \<and> recv_payload (from_bytes h) (clock v1) [] v1 = ([], Inr img, v2)
           \<and> length img = from_bytes h
           \<and> fst (iteration ocr v) =
               [Status (ImageReceived (from_bytes h))] @ snd (fst (read_waybill v2))
                 @ handle_image ocr img (fst (fst (read_waybill v2))))"
    (is "?L \<longleftrightarrow> ?R")
  proof
    assume ?L
    from image_event_pass[OF this] obtain m h v1 img v2 where
      a: "in_waiting v = (Inr m, v)" "m \<noteq> 0" "ser_read 4 v = (Inr h, v1)" "length h = 4"
      and r: "recv_payload (from_bytes h) (clock v1) [] v1 = ([], Inr img, v2)"
      and l: "length img = from_bytes h" by blast
    have reach: "(payload_next (from_bytes h) (clock v1))\<^sup>*\<^sup>* ([], v1) (img, v2)"
      using r by (rule recv_payload_reach)
    have "fst (iteration ocr v) =
               [Status (ImageReceived (from_bytes h))] @ snd (fst (read_waybill v2))
                 @ handle_image ocr img (fst (fst (read_waybill v2)))"
      using iteration_after_header[OF a r, of ocr] l by simp
    with a r l reach show ?R by blast
  next
    assume ?R
    then obtain h img v2 where
      "fst (iteration ocr v) =
               [Status (ImageReceived (from_bytes h))] @ snd (fst (read_waybill v2))
                 @ handle_image ocr img (fst (fst (read_waybill v2)))" by blast
    with handle_image_event[of ocr img "fst (fst (read_waybill v2))"] show ?L by auto
  qed
qed

lemma slow_reach:
  "(payload_next (from_bytes [7, 0, 0, 0]) (clock slow_payload))\<^sup>*\<^sup>*
     ([], slow_payload) ([1, 2, 3, 4, 5, 6], slow_stopped)"
  using recv_payload_reach[OF slow_recv] by (simp add: slow_header)

theorem payload_deadline_witness:
  "iteration ex_ocr slow_world = ([Status Timeout, Status (Incomplete 6 7)], None, slow_stopped)
   \<and> pending slow_stopped = 7 # ex_code"
proof -
  have "length [1, 2, 3, 4, 5, 6 :: byte] < from_bytes [7, 0, 0, 0]" by simp
  moreover have "clock slow_stopped - clock slow_payload > 5000"
    by (simp add: slow_stopped_def slow_payload_def)
  ultimately have "iteration ex_ocr slow_world =
      ([Status Timeout, Status (Incomplete (length [1, 2, 3, 4, 5, 6 :: byte]) (from_bytes [7, 0, 0, 0]))],
       None, slow_stopped)"
    using payload_deadline[OF slow_header(1) _ slow_header(2) _ slow_reach, of ex_ocr] by simp
  then show ?thesis by (simp add: pending_def slow_stopped_def)
qed

lemma two_chunks_reach: "(payload_next 3 0)\<^sup>*\<^sup>* ([], two_chunks) ([0xFF], two_chunks_next)"
proof -
  have "payload_next 3 0 ([], two_chunks) ([0xFF], two_chunks_next)"
    by (simp add: payload_next_def payload_step_def ser_read_def two_chunks_def two_chunks_next_def)
  then show ?thesis by (rule r_into_rtranclp)
qed

theorem incomplete_frame_left_unread_witness:
  "run_loop ex_ocr 1 slow_world = ([Status Timeout, Status (Incomplete 6 7)], None, slow_stopped)
   \<and> pending slow_payload = [1, 2, 3, 4, 5, 6] @ pending slow_stopped
   \<and> pending slow_stopped = 7 # ex_code"
proof -
  have r: "recv_payload (from_bytes [7, 0, 0, 0]) (clock slow_payload) [] slow_payload
      = ([Status Timeout], Inr [1, 2, 3, 4, 5, 6], slow_stopped)"
    using slow_recv by (simp add: slow_header)
  have "length [1, 2, 3, 4, 5, 6 :: byte] < from_bytes [7, 0, 0, 0]" by simp
  from incomplete_frame_left_unread[OF slow_header(1) _ slow_header(2) _ r this, of ex_ocr 0]
  show ?thesis by (simp add: pending_def slow_stopped_def)
qed

lemma bad_header: "in_waiting bad_world = (Inr 20, bad_world)"
  "ser_read 4 bad_world = (Inr [3, 0, 0, 0], bad_payload)"
  "from_bytes [3, 0, 0, 0] = 3" "clock bad_payload = 0"
  by (simp_all add: in_waiting_def ser_read_def bad_world_def bad_payload_def bad_code_def)

lemma bad_recv:
  "recv_payload 3 0 [] bad_payload = ([], Inr [0xFF, 0xD8, 0xFF], bad_waybill)"
  by (simp add: recv_payload.simps payload_step_def ser_read_def bad_payload_def bad_waybill_def
      bad_code_def)

lemma bad_ident: "ser_read 13 bad_waybill = (Inr bad_code, \<lparr>feed = [], clock = 0\<rparr>)"
  "decode_ascii bad_code = None"
  by (simp_all add: ser_read_def bad_waybill_def bad_code_def decode_ascii_def)

theorem undecodable_waybill_dispatched_witness:
  "iteration ex_ocr bad_world =
     ([Status (ImageReceived 3), Status WaybillError,
       NewData \<lparr>name = [], phone = [], ocr_text = [], waybill = read_failed\<rparr>, Status OcrDone],
      None, \<lparr>feed = [], clock = 0\<rparr>)"
proof -
  have r: "recv_payload (from_bytes [3, 0, 0, 0]) (clock bad_payload) [] bad_payload
      = ([], Inr [0xFF, 0xD8, 0xFF], bad_waybill)"
    using bad_recv by (simp add: bad_header)
  have "length [0xFF, 0xD8, 0xFF :: byte] = from_bytes [3, 0, 0, 0]" by simp
  from undecodable_waybill_dispatched[OF bad_header(1) _ bad_header(2) _ r this bad_ident, of ex_ocr]
  show ?thesis by (simp add: ex_ocr_def)
qed

lemma ascii_not_continuation: "(b :: byte) < 128 \<Longrightarrow> b AND 0xC0 \<noteq> 0x80"
proof
  assume lt: "b < 128" and eq: "b AND 0xC0 = 0x80"
  have "b AND 0xC0 \<le> b" by (rule word_and_le2)
  with eq have "128 \<le> b" by simp
  with lt show False by simp
qed

lemma py_len_ascii: "list_all (\<lambda>b. b < 128) code \<Longrightarrow> py_len code = length code"
  by (induction code) (auto simp: py_len_def ascii_not_continuation)

lemma decode_ascii_Some: "list_all (\<lambda>b. b < 128) bs \<Longrightarrow> decode_ascii bs = Some (map unat bs)"
  by (simp add: decode_ascii_def)

lemma whole_frame_SomeD:
  assumes "whole_frame w = Some (img, ident)"
  shows "\<exists>m h w1 w2 w3. in_waiting w = (Inr m, w) \<and> m \<noteq> 0 \<and> ser_read 4 w = (Inr h, w1)
     \<and> length h = 4 \<and> recv_payload (from_bytes h) (clock w1) [] w1 = ([], Inr img, w2)
     \<and> length img = from_bytes h \<and> ser_read 13 w2 = (Inr ident, w3) \<and> length ident = 13"
proof -
  from assms obtain m w0 where a: "in_waiting w = (Inr m, w0)" "m \<noteq> 0"
    by (auto simp: whole_frame_def split: prod.splits sum.splits if_splits)
  then have w0: "w0 = w" by (rule in_waiting_nonzero)
  from assms a obtain h w1 where b: "ser_read 4 w = (Inr h, w1)" "length h = 4"
    using ser_read_length[of 4 w]
    by (fastforce simp: whole_frame_def w0 split: prod.splits sum.splits if_splits)
  from assms a b obtain evs w2 where c: "recv_payload (from_bytes h) (clock w1) [] w1 = (evs, Inr img, w2)"
      "length img = from_bytes h"
    by (auto simp: whole_frame_def w0 split: prod.splits sum.splits if_splits)
  from recv_payload_result[OF c(1)] c(2) have e: "evs = []" by simp
  from assms a b c obtain w3 where d: "ser_read 13 w2 = (Inr ident, w3)" "length ident = 13"
    by (auto simp: whole_frame_def w0 split: prod.splits sum.splits if_splits)
  show ?thesis using a b c d e w0 by blast
qed

lemma whole_frame_pending:
  assumes "whole_frame w = Some (img, ident)"
  shows "img = take (from_bytes (take 4 (pending w))) (drop 4 (pending w))"
    and "ident = take 13 (drop (4 + from_bytes (take 4 (pending w))) (pending w))"
proof -
  from whole_frame_SomeD[OF assms] obtain m h w1 w2 w3 where
    a: "ser_read 4 w = (Inr h, w1)" "length h = 4"
    and c: "recv_payload (from_bytes h) (clock w1) [] w1 = ([], Inr img, w2)" "length img = from_bytes h"
    and d: "ser_read 13 w2 = (Inr ident, w3)" "length ident = 13" by blast
  have p1: "pending w = h @ pending w1" using a(1) by (rule ser_read_pending)
  have p2: "pending w1 = img @ pending w2" using recv_payload_result[OF c(1)] by simp
  have p3: "pending w2 = ident @ pending w3" using d(1) by (rule ser_read_pending)
  have h: "take 4 (pending w) = h" using p1 a(2) by simp
  show "img = take (from_bytes (take 4 (pending w))) (drop 4 (pending w))"
    using p1 p2 a(2) c(2) by (simp add: h)
  show "ident = take 13 (drop (4 + from_bytes (take 4 (pending w))) (pending w))"
    unfolding h using p1 p2 p3 a(2) c(2) d(2) by simp
qed

lemma iteration_whole_frame:
  assumes "whole_frame w = Some (img, ident)"
  shows "fst (iteration ocr w) =
     [Status (ImageReceived (length img))] @ snd (decode_waybill (Inr ident))
       @ handle_image ocr img (fst (decode_waybill (Inr ident)))"
proof -
  from whole_frame_SomeD[OF assms] obtain m h w1 w2 w3 where
    a: "in_waiting w = (Inr m, w)" "m \<noteq> 0" "ser_read 4 w = (Inr h, w1)" "length h = 4"
    and c: "recv_payload (from_bytes h) (clock w1) [] w1 = ([], Inr img, w2)" "length img = from_bytes h"
    and d: "ser_read 13 w2 = (Inr ident, w3)" by blast
  have "read_waybill w2 = (decode_waybill (Inr ident), w3)" using d by (simp add: read_waybill_def)
  then show ?thesis using iteration_after_header[OF a c(1), of ocr] c(2) by simp
qed

text \<open>
  Claim C1, as amended. Take a payload shorter than \<open>2 ^ 32\<close> bytes and an identifier
  of 13 ASCII bytes that was not sent before. The sender accepts the pair and writes the
  length, the payload and the identifier. Let these bytes reach the receiver in any
  chunks and with any delays, followed by whatever comes later: if the pass reads the
  frame whole (the read of 4 returns 4 bytes, the payload loop fills the buffer within
  the deadline, the read of 13 returns 13 bytes), then the payload it read is the
  sender's, the identifier it read is the sender's, and it emits the size of the payload
  and the identifier as waybill and hands exactly the payload and that waybill to the
  handling of the image.
\<close>

theorem frame_round_trip:
  assumes "length P < 2 ^ 32" and "length I = 13" and "list_all (\<lambda>b. b < 128) I"
    and "I \<notin> set (pre_code s)"
    and "pending w = concat [le_digits 4 (length P), P, I] @ later"
    and "whole_frame w = Some (img, ident)"
  shows "sender_step \<lparr>barcodes = I # others, img_compressed = P\<rparr> s
           = Inr (s\<lparr>pre_code := pre_code s @ [I],
                    uart := uart s @ [le_digits 4 (length P), P, I], led := True\<rparr>)
       \<and> img = P \<and> ident = I
       \<and> fst (iteration ocr w)
           = [Status (ImageReceived (length P)), Status (WaybillReceived (map unat I))]
               @ handle_image ocr P (map unat I)"
proof -
  define H where "H = le_digits 4 (length P)"
  have H: "length H = 4" "from_bytes H = length P"
    using assms(1) by (simp_all add: H_def length_le_digits from_bytes_le_digits)
  have "py_len I = 13" using py_len_ascii[OF assms(3)] assms(2) by simp
  then have snd: "sender_step \<lparr>barcodes = I # others, img_compressed = P\<rparr> s
           = Inr (s\<lparr>pre_code := pre_code s @ [I], uart := uart s @ [H, P, I], led := True\<rparr>)"
    using assms(1,4) by (simp add: sender_step_def to_bytes_def H_def)
  have p: "pending w = H @ P @ I @ later" using assms(5) by (simp add: H_def)
  have t: "take 4 (pending w) = H" using p H(1) by simp
  have img: "img = P"
    using whole_frame_pending(1)[OF assms(6)] H by (simp add: t) (simp add: p)
  have ident: "ident = I"
    using whole_frame_pending(2)[OF assms(6)] H assms(2) by (simp add: t) (simp add: p)
  have "decode_waybill (Inr I) = (map unat I, [Status (WaybillReceived (map unat I))])"
    by (simp add: decode_waybill_def decode_ascii_Some[OF assms(3)])
  then have "fst (iteration ocr w)
           = [Status (ImageReceived (length P)), Status (WaybillReceived (map unat I))]
               @ handle_image ocr P (map unat I)"
    using iteration_whole_frame[OF assms(6), of ocr] img ident by simp
  with snd img ident show ?thesis by (simp add: H_def)
qed

text \<open>
  Claim C2, as amended. Two worlds hold the same bytes, cut into chunks and delayed in
  any two ways. If in both the pass reads the length prefix whole, fills the buffer
  before the deadline and reads the identifier whole, then both passes take the same
  payload and the same identifier bytes and emit the same events.
\<close>

theorem chunking_independent:
  assumes "pending w1 = pending w2"
    and "whole_frame w1 = Some (img1, ident1)" and "whole_frame w2 = Some (img2, ident2)"
  shows "img1 = img2 \<and> ident1 = ident2 \<and> fst (iteration ocr w1) = fst (iteration ocr w2)"
proof -
  have "img1 = img2" using whole_frame_pending(1)[OF assms(2)] whole_frame_pending(1)[OF assms(3)] assms(1) by simp
  moreover have "ident1 = ident2"
    using whole_frame_pending(2)[OF assms(2)] whole_frame_pending(2)[OF assms(3)] assms(1) by simp
  ultimately show ?thesis
    using iteration_whole_frame[OF assms(2), of ocr] iteration_whole_frame[OF assms(3), of ocr] by simp
qed

lemmas receiver_defs = iteration_def in_waiting_def ser_read_def recv_payload.simps
  payload_step_def sleep_def read_waybill_def decode_waybill_def decode_ascii_def
  handle_image_def ex_ocr_def ex_code_def ex_record_def ex_waybill_def

lemma one_chunk_pass:
  "iteration ex_ocr one_chunk =
     ([Status (ImageReceived 3), Status (WaybillReceived ex_waybill), NewData ex_record,
       Status OcrDone], None, \<lparr>feed = [], clock = 0\<rparr>)"
  by (simp add: receiver_defs one_chunk_def)

lemma quick_pass:
  "iteration ex_ocr quick_world =
     ([Status (ImageReceived 7), Status (WaybillReceived ex_waybill), NewData ex_record,
       Status OcrDone], None, \<lparr>feed = [], clock = 0\<rparr>)"
  by (simp add: receiver_defs quick_world_def)

lemma slow_pass:
  "iteration ex_ocr slow_world = ([Status Timeout, Status (Incomplete 6 7)], None, slow_stopped)"
  by (simp add: receiver_defs slow_world_def slow_stopped_def)

lemma late_pass:
  "iteration ex_ocr late_world =
     ([Status (ImageReceived 7), Status (WaybillReceived ex_waybill), NewData ex_record,
       Status OcrDone], None, \<lparr>feed = [], clock = 6000\<rparr>)"
  by (simp add: receiver_defs late_world_def)

lemma split_first: "iteration ex_ocr split_world = ([], None, split_rest)"
  by (simp add: receiver_defs split_world_def split_rest_def)

lemma split_second:
  "iteration ex_ocr split_rest =
     ([Status Timeout, Status (Incomplete 14 3640590336)], None, \<lparr>feed = [], clock = 6050\<rparr>)"
  by (simp add: receiver_defs split_rest_def)

lemma split_run:
  "run_loop ex_ocr 2 split_world =
     ([Status Timeout, Status (Incomplete 14 3640590336)], None, \<lparr>feed = [], clock = 6050\<rparr>)"
proof -
  have "run_loop ex_ocr (Suc (Suc 0)) split_world =
     ([Status Timeout, Status (Incomplete 14 3640590336)], None, \<lparr>feed = [], clock = 6050\<rparr>)"
    by (simp add: split_first split_second)
  then show ?thesis by (simp only: numeral_2_eq_2)
qed

lemma failing_run:
  "run ex_ocr True 1 failing_world
     = ([Status Connected, Status ConnError], PortOpen, \<lparr>feed = [], clock = 0\<rparr>)"
  by (simp add: run_def receiver_defs failing_world_def)

lemma whole_one: "whole_frame one_chunk = Some ([0xFF, 0xD8, 0xFF], ex_code)"
  by (simp add: whole_frame_def receiver_defs one_chunk_def)

lemma whole_bytes: "whole_frame byte_chunks = Some ([0xFF, 0xD8, 0xFF], ex_code)"
  by (simp add: whole_frame_def receiver_defs byte_chunks_def)

lemma stalled_pass:
  "iteration ex_ocr stalled_world = ([Status Timeout, Status (Incomplete 1 3)], None, stalled_stopped)"
  by (simp add: receiver_defs stalled_world_def stalled_stopped_def)

lemma two_chunks_step:
  "payload_step 3 0 [0xFF] two_chunks_next
     = Next [0xFF, 0xD8, 0xFF] \<lparr>feed = [Arrive 0 ex_code], clock = 5\<rparr>"
  by (simp add: payload_step_def ser_read_def two_chunks_next_def ex_code_def)

theorem payload_buffer_bounded_witness:
  "(payload_next 3 0)\<^sup>*\<^sup>* ([], two_chunks) ([0xFF], two_chunks_next)
   \<and> length [0xFF :: byte] \<le> 3
   \<and> payload_step 3 0 [0xFF] two_chunks_next
       = Next [0xFF, 0xD8, 0xFF] \<lparr>feed = [Arrive 0 ex_code], clock = 5\<rparr>
   \<and> (\<exists>chunk w1. ser_read (min 2048 (3 - length [0xFF :: byte])) two_chunks_next = (Inr chunk, w1)
         \<and> length chunk \<le> min 2048 (3 - length [0xFF :: byte])
         \<and> [0xFF, 0xD8, 0xFF] = [0xFF] @ chunk)
   \<and> NewData ex_record \<in> set (fst (iteration ex_ocr one_chunk))
   \<and> (\<exists>h v1 img v2. ser_read 4 one_chunk = (Inr h, v1)
         \<and> recv_payload (from_bytes h) (clock v1) [] v1 = ([], Inr img, v2)
         \<and> length img = from_bytes h)"
proof -
  note t = payload_buffer_bounded[where n = 3 and st = 0 and ?w0.0 = two_chunks
      and buf = "[0xFF]" and w = two_chunks_next and ocr = ex_ocr and v = one_chunk]
  have n: "NewData ex_record \<in> set (fst (iteration ex_ocr one_chunk))"
    by (simp add: one_chunk_pass)
  then have l: "\<exists>ev\<in>set (fst (iteration ex_ocr one_chunk)). image_event ev"
    by (rule bexI[rotated]) simp
  from t two_chunks_reach have 1: "length [0xFF :: byte] \<le> 3" by blast
  from t two_chunks_reach two_chunks_step
  have 2: "\<exists>chunk w1. ser_read (min 2048 (3 - length [0xFF :: byte])) two_chunks_next = (Inr chunk, w1)
         \<and> length chunk \<le> min 2048 (3 - length [0xFF :: byte])
         \<and> [0xFF, 0xD8, 0xFF] = [0xFF] @ chunk" by blast
  from t l have 3: "\<exists>h v1 img v2. ser_read 4 one_chunk = (Inr h, v1)
         \<and> recv_payload (from_bytes h) (clock v1) [] v1 = ([], Inr img, v2)
         \<and> length img = from_bytes h" by blast
  from two_chunks_reach 1 two_chunks_step 2 n 3 show ?thesis by (intro conjI)
qed

theorem frame_round_trip_witness:
  "sender_step ex_snap sender_init = Inr ex_sent
   \<and> pending byte_chunks = concat (uart ex_sent)
   \<and> whole_frame byte_chunks = Some ([0xFF, 0xD8, 0xFF], ex_code)
   \<and> fst (iteration ex_ocr byte_chunks)
       = [Status (ImageReceived 3), Status (WaybillReceived ex_waybill), NewData ex_record,
          Status OcrDone]"
proof -
  have a: "length [0xFF, 0xD8, 0xFF :: byte] < 2 ^ 32" by simp
  have b: "length ex_code = 13" by (simp add: ex_code_def)
  have c: "list_all (\<lambda>b. b < 128) ex_code" by (simp add: ex_code_def)
  have d: "ex_code \<notin> set (pre_code sender_init)" by (simp add: sender_init_def)
  have e: "le_digits 4 3 = [3, 0, 0, 0]" by (simp add: le_digits_4)
  have len: "length [0xFF, 0xD8, 0xFF :: byte] = 3" by simp
  have p: "pending byte_chunks = concat [le_digits 4 (length [0xFF, 0xD8, 0xFF :: byte]),
      [0xFF, 0xD8, 0xFF], ex_code] @ []"
    unfolding len e by (simp add: pending_def byte_chunks_def)
  have u: "pending byte_chunks = concat (uart ex_sent)"
    by (simp add: pending_def byte_chunks_def ex_sent_def)
  have m: "map unat ex_code = ex_waybill" by (simp add: ex_code_def ex_waybill_def)
  have f: "handle_image ex_ocr [0xFF, 0xD8, 0xFF] ex_waybill = [NewData ex_record, Status OcrDone]"
    by (simp add: handle_image_def ex_ocr_def ex_record_def)
  have g: "ex_snap = \<lparr>barcodes = ex_code # [], img_compressed = [0xFF, 0xD8, 0xFF]\<rparr>"
    by (simp add: ex_snap_def)
  have h: "sender_init\<lparr>pre_code := pre_code sender_init @ [ex_code],
      uart := uart sender_init @ [[3, 0, 0, 0], [0xFF, 0xD8, 0xFF], ex_code], led := True\<rparr> = ex_sent"
    by (simp add: ex_sent_def sender_init_def)
  from frame_round_trip[OF a b c d p whole_bytes, of "[]" ex_ocr]
  have "sender_step ex_snap sender_init = Inr ex_sent
      \<and> fst (iteration ex_ocr byte_chunks)
       = [Status (ImageReceived 3), Status (WaybillReceived ex_waybill), NewData ex_record,
          Status OcrDone]"
    unfolding len e m f g h by simp
  with u whole_bytes show ?thesis by simp
qed

text \<open>
  Claim C1 as stated fails in two ways. For an identifier that is not ASCII: the
  sender frames the 13 bytes \<open>0xFF\<close>, and the receiver yields the placeholder for them.
  For a delivery that stalls: the frame the sender writes for \<open>ex_snap\<close> arrives with four
  reads of the payload loop returning empty after the port's timeout, and the receiver
  gives up with one byte of three.
\<close>

theorem round_trip_fails:
  "length bad_code = 13
   \<and> sender_step bad_snap sender_init
       = Inr \<lparr>pre_code = [bad_code], uart = [[3, 0, 0, 0], [0xFF, 0xD8, 0xFF], bad_code], led = True\<rparr>
   \<and> pending bad_world = concat [[3, 0, 0, 0], [0xFF, 0xD8, 0xFF], bad_code]
   \<and> iteration ex_ocr bad_world
       = ([Status (ImageReceived 3), Status WaybillError,
           NewData \<lparr>name = [], phone = [], ocr_text = [], waybill = read_failed\<rparr>,
           Status OcrDone], None, \<lparr>feed = [], clock = 0\<rparr>)
   \<and> read_failed \<noteq> map unat bad_code
   \<and> sender_step ex_snap sender_init = Inr ex_sent
   \<and> pending stalled_world = concat (uart ex_sent)
   \<and> iteration ex_ocr stalled_world
       = ([Status Timeout, Status (Incomplete 1 3)], None, stalled_stopped)"
proof -
  have "py_len bad_code = 13" by (simp add: py_len_def bad_code_def)
  then have "sender_step bad_snap sender_init
       = Inr \<lparr>pre_code = [bad_code], uart = [[3, 0, 0, 0], [0xFF, 0xD8, 0xFF], bad_code], led = True\<rparr>"
    by (simp add: sender_step_def sender_init_def bad_snap_def to_bytes_def le_digits_4)
  moreover have "iteration ex_ocr bad_world
       = ([Status (ImageReceived 3), Status WaybillError,
           NewData \<lparr>name = [], phone = [], ocr_text = [], waybill = read_failed\<rparr>,
           Status OcrDone], None, \<lparr>feed = [], clock = 0\<rparr>)"
    by (simp add: receiver_defs bad_world_def bad_code_def)
  moreover have "read_failed \<noteq> map unat bad_code" by (simp add: read_failed_def bad_code_def)
  moreover have "sender_step ex_snap sender_init = Inr ex_sent"
    using ex2 by (simp split: sum.splits)
  moreover have "pending stalled_world = concat (uart ex_sent)"
    by (simp add: pending_def stalled_world_def ex_sent_def)
  moreover have "length bad_code = 13" by (simp add: bad_code_def)
  moreover have "pending bad_world = concat [[3, 0, 0, 0], [0xFF, 0xD8, 0xFF], bad_code]"
    by (simp add: pending_def bad_world_def)
  ultimately show ?thesis using stalled_pass by (intro conjI)
qed

theorem chunking_independent_witness:
  "pending one_chunk = pending byte_chunks
   \<and> whole_frame one_chunk = Some ([0xFF, 0xD8, 0xFF], ex_code)
   \<and> whole_frame byte_chunks = Some ([0xFF, 0xD8, 0xFF], ex_code)
   \<and> fst (iteration ex_ocr one_chunk) = fst (iteration ex_ocr byte_chunks)"
proof -
  have p: "pending one_chunk = pending byte_chunks"
    by (simp add: pending_def one_chunk_def byte_chunks_def)
  from chunking_independent[OF p whole_one whole_bytes, of ex_ocr]
  show ?thesis using p whole_one whole_bytes by simp
qed

text \<open>
  Claim C2 as stated fails: the same frame, once at hand in one piece and once arriving
  one byte a second, gives a record in the first pass and a timeout in the second.
\<close>

theorem chunking_changes_outcome:
  "pending slow_world = pending quick_world
   \<and> fst (iteration ex_ocr quick_world)
       = [Status (ImageReceived 7), Status (WaybillReceived ex_waybill), NewData ex_record,
          Status OcrDone]
   \<and> fst (iteration ex_ocr slow_world) = [Status Timeout, Status (Incomplete 6 7)]"
  by (simp add: quick_pass slow_pass) (simp add: pending_def slow_world_def quick_world_def)

lemma payload_reach_five:
  "(payload_next 7 0)\<^sup>*\<^sup>* ([], late_payload) ([1, 2, 3, 4, 5], late_last)"
proof -
  let ?w = "\<lambda>k t. \<lparr>feed = drop k (feed late_payload), clock = t\<rparr>"
  have 1: "payload_next 7 0 ([], late_payload) ([1], ?w 1 1000)"
    by (simp add: payload_next_def payload_step_def ser_read_def late_payload_def)
  have 2: "payload_next 7 0 ([1], ?w 1 1000) ([1, 2], ?w 2 2000)"
    by (simp add: payload_next_def payload_step_def ser_read_def late_payload_def)
  have 3: "payload_next 7 0 ([1, 2], ?w 2 2000) ([1, 2, 3], ?w 3 3000)"
    by (simp add: payload_next_def payload_step_def ser_read_def late_payload_def)
  have 4: "payload_next 7 0 ([1, 2, 3], ?w 3 3000) ([1, 2, 3, 4], ?w 4 4000)"
    by (simp add: payload_next_def payload_step_def ser_read_def late_payload_def)
  have 5: "payload_next 7 0 ([1, 2, 3, 4], ?w 4 4000) ([1, 2, 3, 4, 5], ?w 5 5000)"
    by (simp add: payload_next_def payload_step_def ser_read_def late_payload_def)
  have e: "?w 5 5000 = late_last" by (simp add: late_payload_def late_last_def)
  have "(payload_next 7 0)\<^sup>*\<^sup>* ([], late_payload) ([1], ?w 1 1000)"
    using 1 by (rule r_into_rtranclp)
  then have "(payload_next 7 0)\<^sup>*\<^sup>* ([], late_payload) ([1, 2], ?w 2 2000)"
    using 2 by (rule rtranclp.rtrancl_into_rtrancl)
  then have "(payload_next 7 0)\<^sup>*\<^sup>* ([], late_payload) ([1, 2, 3], ?w 3 3000)"
    using 3 by (rule rtranclp.rtrancl_into_rtrancl)
  then have "(payload_next 7 0)\<^sup>*\<^sup>* ([], late_payload) ([1, 2, 3, 4], ?w 4 4000)"
    using 4 by (rule rtranclp.rtrancl_into_rtrancl)
  then have "(payload_next 7 0)\<^sup>*\<^sup>* ([], late_payload) ([1, 2, 3, 4, 5], ?w 5 5000)"
    using 5 by (rule rtranclp.rtrancl_into_rtrancl)
  then show ?thesis by (simp only: e)
qed

text \<open>
  Claim C3 as stated fails: the clock is tested before each read only. Here the test at
  5000 ms passes with 5 of 7 bytes in the buffer, the read returns the last two bytes at
  6000 ms, and the frame is handled as complete.
\<close>

theorem late_frame_not_aborted:
  "ser_read 4 late_world = (Inr [7, 0, 0, 0], late_payload)
   \<and> clock late_payload = 0
   \<and> (payload_next 7 0)\<^sup>*\<^sup>* ([], late_payload) ([1, 2, 3, 4, 5], late_last)
   \<and> clock late_last = 5000
   \<and> payload_step 7 0 [1, 2, 3, 4, 5] late_last = Next [1, 2, 3, 4, 5, 6, 7] late_done
   \<and> clock late_done = 6000
   \<and> iteration ex_ocr late_world
       = ([Status (ImageReceived 7), Status (WaybillReceived ex_waybill), NewData ex_record,
           Status OcrDone], None, \<lparr>feed = [], clock = 6000\<rparr>)"
proof -
  have s: "payload_step 7 0 [1, 2, 3, 4, 5] late_last = Next [1, 2, 3, 4, 5, 6, 7] late_done"
    by (simp add: payload_step_def ser_read_def late_last_def late_done_def)
  have reach: "(payload_next 7 0)\<^sup>*\<^sup>* ([], late_payload) ([1, 2, 3, 4, 5], late_last)"
    by (rule payload_reach_five)
  show ?thesis
    using s reach late_pass
    by (simp add: ser_read_def late_world_def late_payload_def late_last_def late_done_def)
qed

text \<open>
  Claim C7 at a failing input. The frame of \<open>one_chunk\<close> arrives with its length prefix
  in two pieces. The first pass reads two bytes, emits nothing and drops them; the
  second pass takes the next four bytes for the length prefix, waits for 3640590336
  bytes and times out.
\<close>

theorem short_length_read_drops_bytes:
  "pending split_world = pending one_chunk
   \<and> iteration ex_ocr one_chunk
       = ([Status (ImageReceived 3), Status (WaybillReceived ex_waybill), NewData ex_record,
           Status OcrDone], None, \<lparr>feed = [], clock = 0\<rparr>)
   \<and> iteration ex_ocr split_world = ([], None, split_rest)
   \<and> pending split_world = [3, 0] @ pending split_rest
   \<and> run_loop ex_ocr 2 split_world
       = ([Status Timeout, Status (Incomplete 14 3640590336)], None, \<lparr>feed = [], clock = 6050\<rparr>)"
  by (simp add: one_chunk_pass split_first split_run)
    (simp add: pending_def split_world_def split_rest_def one_chunk_def)

text \<open>
  Claim C8 at a failing input. A read that raises ends \<^verbatim>\<open>run\<close> through the handler of
  line 92, which reports the error; \<^verbatim>\<open>ser.close()\<close> of line 89 is not reached. When the
  loop ends because the flag was cleared, the port is closed.
\<close>

theorem read_error_leaves_port_open:
  "run ex_ocr True 1 failing_world
     = ([Status Connected, Status ConnError], PortOpen, \<lparr>feed = [], clock = 0\<rparr>)
   \<and> run ex_ocr True 1 \<lparr>feed = [], clock = 0\<rparr>
     = ([Status Connected, Status Closed], PortClosed, \<lparr>feed = [], clock = 0\<rparr>)"
proof -
  have "run ex_ocr True 1 \<lparr>feed = [], clock = 0\<rparr>
     = ([Status Connected, Status Closed], PortClosed, \<lparr>feed = [], clock = 0\<rparr>)"
    by (simp add: run_def receiver_defs)
  with failing_run show ?thesis by (rule conjI)
qed

end
